theory Spec2Isabelle
  imports Complex_Main "HOL-Library.Code_Target_Numeral"
begin

section \<open>Numbers and arrays of the numeric library\<close>

text \<open>
  A kernel returns a Python number: an \<^verbatim>\<open>int\<close>, which is unbounded, or a \<^verbatim>\<open>float\<close>,
  which is a double and is modelled by the real number it denotes (infinities and
  not-a-number are left out; arithmetic on floats is not part of this development).
\<close>

datatype error = IndexError | TypeError | OverflowError

datatype pynum = PyInt int | PyFloat real

fun py_value :: "pynum \<Rightarrow> real" where
  "py_value (PyInt n) = real_of_int n"
| "py_value (PyFloat r) = r"

text \<open>
  The cells of the arrays of the notebooks are doubles, so a number assigned to a cell is
  converted first. A float is stored as it is. An int is rounded to the nearest double,
  ties to the even significand: a double keeps \<open>53\<close> significant bits, \<open>excess_bits a\<close>
  is the number of low bits that the magnitude \<open>a\<close> has beyond them, and these are rounded
  away. The largest double is \<open>2 ^ 1024 - 2 ^ 971\<close>; when rounding gives \<open>2 ^ 1024\<close> or more
  there is no double to store, and the conversion raises \<^verbatim>\<open>OverflowError\<close>.
\<close>

function excess_bits :: "nat \<Rightarrow> nat" where
  "excess_bits a = (if a < 2 ^ 53 then 0 else Suc (excess_bits (a div 2)))"
  by pat_completeness auto
termination
  by (relation "measure (\<lambda>a. a)") auto

declare excess_bits.simps [simp del]

definition nearest_double_nat :: "nat \<Rightarrow> nat" where
  "nearest_double_nat a =
     (let e = excess_bits a;
          q = a div 2 ^ e;
          r = a mod 2 ^ e;
          q' = (if 2 ^ e < 2 * r \<or> (2 * r = 2 ^ e \<and> odd q) then q + 1 else q)
      in q' * 2 ^ e)"

definition nearest_double :: "int \<Rightarrow> int" where
  "nearest_double n = sgn n * int (nearest_double_nat (nat \<bar>n\<bar>))"

definition overflows :: "pynum \<Rightarrow> bool" where
  "overflows v = (case v of PyInt n \<Rightarrow> 2 ^ 1024 \<le> \<bar>nearest_double n\<bar> | PyFloat r \<Rightarrow> False)"

fun float64_of :: "pynum \<Rightarrow> real" where
  "float64_of (PyInt n) = real_of_int (nearest_double n)"
| "float64_of (PyFloat r) = r"

definition to_float64 :: "pynum \<Rightarrow> error + real" where
  "to_float64 v = (if overflows v then Inl OverflowError else Inr (float64_of v))"

text \<open>
  A two-dimensional array is a shape together with its cells; the number of columns is
  kept as a field of its own, because an array of shape \<open>(0, n)\<close> has no row from which
  \<open>n\<close> could be read.
\<close>

record matrix =
  ncols :: nat
  rows :: "real list list"

definition nrows :: "matrix \<Rightarrow> nat" where
  "nrows M = length (rows M)"

definition shape :: "matrix \<Rightarrow> nat \<times> nat" where
  "shape M = (nrows M, ncols M)"

text \<open>\<^verbatim>\<open>np.zeros((m, n))\<close>: a fresh array of the given shape, every cell \<open>0\<close>.\<close>

definition np_zeros :: "nat \<times> nat \<Rightarrow> matrix" where
  "np_zeros s = \<lparr>ncols = snd s, rows = replicate (fst s) (replicate (snd s) 0)\<rparr>"

text \<open>
  \<^verbatim>\<open>M[i, j] = v\<close> and \<^verbatim>\<open>M[i, j]\<close> for the non-negative indices the loops produce:
  an index outside the shape raises \<^verbatim>\<open>IndexError\<close>; the assignment then converts
  \<open>v\<close> to a double, which may raise, and stores the double.
\<close>

definition setitem :: "matrix \<Rightarrow> nat \<times> nat \<Rightarrow> pynum \<Rightarrow> error + matrix" where
  "setitem M ij v =
     (case ij of (i, j) \<Rightarrow>
        if i < nrows M \<and> j < ncols M
        then (case to_float64 v of
                Inl e \<Rightarrow> Inl e
              | Inr c \<Rightarrow> Inr (M\<lparr>rows := (rows M)[i := (rows M ! i)[j := c]]\<rparr>))
        else Inl IndexError)"

definition getitem :: "matrix \<Rightarrow> nat \<times> nat \<Rightarrow> error + real" where
  "getitem M ij =
     (case ij of (i, j) \<Rightarrow>
        if i < nrows M \<and> j < ncols M then Inr (rows M ! i ! j) else Inl IndexError)"

text \<open>Every row of a well-formed array has as many cells as the shape says.\<close>

definition wf_matrix :: "matrix \<Rightarrow> bool" where
  "wf_matrix M = list_all (\<lambda>r. length r = ncols M) (rows M)"

section \<open>The Gram matrix of a kernel\<close>

text \<open>
  The placeholder kernel of the notebook returns the int \<open>0\<close>:
  \<^verbatim>\<open>
  def kernel(x1, x2):
      return 0
  \<close>
\<close>

definition kernel :: "'a \<Rightarrow> 'b \<Rightarrow> pynum" where
  "kernel x1 x2 = PyInt 0"

text \<open>
  \<^verbatim>\<open>
  def gram(A, B):
      gram = np.zeros((len(A), len(B)))
      for id1, x1 in enumerate(A):
          for id2, x2 in enumerate(B):
              gram[id1, id2] = kernel(x1, x2)
      return gram
  \<close>
  A sequence argument, be it a list or an array read row by row, is the list of its items.
  The function reads the global name \<^verbatim>\<open>kernel\<close>, which the reader of the notebook is
  invited to redefine; in the model the kernel in force is the first argument. A kernel is
  a callable of the environment, and evaluating it may have effects of its own (a device
  is driven, a counter advances): it takes the state of the environment and returns its
  value together with the new state. The loops thread that state and the array under
  construction; an error carries the state in which it was raised.
\<close>

type_synonym ('a, 'b, 's) kern = "'a \<Rightarrow> 'b \<Rightarrow> 's \<Rightarrow> pynum \<times> 's"

fun gram_inner ::
  "('a, 'b, 's) kern \<Rightarrow> nat \<Rightarrow> 'a \<Rightarrow> (nat \<times> 'b) list \<Rightarrow> matrix \<times> 's
     \<Rightarrow> error \<times> 's + matrix \<times> 's" where
  "gram_inner k id1 x1 [] st = Inr st"
| "gram_inner k id1 x1 ((id2, x2) # rest) (G, s) =
     (case k x1 x2 s of
        (v, s') \<Rightarrow>
          (case setitem G (id1, id2) v of
             Inl e \<Rightarrow> Inl (e, s')
           | Inr G' \<Rightarrow> gram_inner k id1 x1 rest (G', s')))"

fun gram_outer ::
  "('a, 'b, 's) kern \<Rightarrow> (nat \<times> 'a) list \<Rightarrow> 'b list \<Rightarrow> matrix \<times> 's
     \<Rightarrow> error \<times> 's + matrix \<times> 's" where
  "gram_outer k [] B st = Inr st"
| "gram_outer k ((id1, x1) # rest) B st =
     (case gram_inner k id1 x1 (enumerate 0 B) st of
        Inl err \<Rightarrow> Inl err
      | Inr st' \<Rightarrow> gram_outer k rest B st')"

definition gram_run ::
  "('a, 'b, 's) kern \<Rightarrow> 'a list \<Rightarrow> 'b list \<Rightarrow> 's \<Rightarrow> error \<times> 's + matrix \<times> 's" where
  "gram_run k A B s = gram_outer k (enumerate 0 A) B (np_zeros (length A, length B), s)"

text \<open>
  A kernel that is a function of its arguments alone changes no state. \<open>gram k A B\<close> is
  the outcome of \<^verbatim>\<open>gram(A, B)\<close> with such a kernel in force.
\<close>

definition pure_kernel :: "('a \<Rightarrow> 'b \<Rightarrow> pynum) \<Rightarrow> ('a, 'b, unit) kern" where
  "pure_kernel k x1 x2 s = (k x1 x2, s)"

definition gram :: "('a \<Rightarrow> 'b \<Rightarrow> pynum) \<Rightarrow> 'a list \<Rightarrow> 'b list \<Rightarrow> error + matrix" where
  "gram k A B =
     (case gram_run (pure_kernel k) A B () of
        Inl err \<Rightarrow> Inl (fst err)
      | Inr st \<Rightarrow> Inr (fst st))"

text \<open>
  The two calls of the notebook that feed the support-vector machine:
  \<^verbatim>\<open>
  gram_train = gram(X_train, X_train)
  gram_test = gram(X_test, X_train)
  \<close>
  with the placeholder kernel in force.
\<close>

definition gram_train :: "'a list \<Rightarrow> error + matrix" where
  "gram_train X_train = gram kernel X_train X_train"

definition gram_test :: "'a list \<Rightarrow> 'b list \<Rightarrow> error + matrix" where
  "gram_test X_train X_test = gram kernel X_test X_train"

text \<open>
  Two kernels that observe their own evaluations: one counts them, the other appends the
  pair of arguments of each evaluation to a trace. Both return what \<open>f\<close> returns. What
  such a kernel has recorded when \<^verbatim>\<open>gram\<close> is left is the record of the evaluations
  made, whatever the loops do besides.
\<close>

definition counting :: "('a \<Rightarrow> 'b \<Rightarrow> pynum) \<Rightarrow> ('a, 'b, nat) kern" where
  "counting f x1 x2 n = (f x1 x2, Suc n)"

definition tracing :: "('a \<Rightarrow> 'b \<Rightarrow> pynum) \<Rightarrow> ('a, 'b, ('a \<times> 'b) list) kern" where
  "tracing f x1 x2 tr = (f x1 x2, tr @ [(x1, x2)])"

text \<open>
  The state of the environment after the kernel has been evaluated on a list of pairs of
  arguments, one after the other.
\<close>

definition kernel_steps :: "('a, 'b, 's) kern \<Rightarrow> ('a \<times> 'b) list \<Rightarrow> 's \<Rightarrow> 's" where
  "kernel_steps k ps s = fold (\<lambda>p t. snd (k (fst p) (snd p) t)) ps s"

text \<open>
  The nested evaluation without the array: the doubles of one row, and of all rows, in the
  order in which they are computed, up to the first value that does not convert.
\<close>

fun eval_row ::
  "('a, 'b, 's) kern \<Rightarrow> 'a \<Rightarrow> 'b list \<Rightarrow> 's \<Rightarrow> error \<times> 's + real list \<times> 's" where
  "eval_row k x1 [] s = Inr ([], s)"
| "eval_row k x1 (x2 # ys) s =
     (case k x1 x2 s of
        (v, s') \<Rightarrow>
          if overflows v then Inl (OverflowError, s')
          else (case eval_row k x1 ys s' of
                  Inl err \<Rightarrow> Inl err
                | Inr (cs, s'') \<Rightarrow> Inr (float64_of v # cs, s'')))"

fun eval_rows ::
  "('a, 'b, 's) kern \<Rightarrow> 'a list \<Rightarrow> 'b list \<Rightarrow> 's \<Rightarrow> error \<times> 's + real list list \<times> 's" where
  "eval_rows k [] B s = Inr ([], s)"
| "eval_rows k (x1 # xs) B s =
     (case eval_row k x1 B s of
        Inl err \<Rightarrow> Inl err
      | Inr (cs, s') \<Rightarrow>
          (case eval_rows k xs B s' of
             Inl err \<Rightarrow> Inl err
           | Inr (rs, s'') \<Rightarrow> Inr (cs # rs, s'')))"

section \<open>The call in a store of objects\<close>

text \<open>
  In the interpreter the arguments of \<^verbatim>\<open>gram\<close> are references: the same list may be
  passed in both slots, and the array written by the loops is an object of its own. The
  store lists the objects allocated so far; an address is a position in it, and
  allocation appends. Feature vectors are lists of numbers, held by value in the sequence
  that contains them. An object is a sequence of feature vectors (a Python list), a
  two-dimensional array, whose items are its rows, or anything without a length. An
  address outside the store denotes no object and is treated as one without a length.
\<close>

type_synonym vec = "real list"

datatype obj = Seq "vec list" | Arr matrix | Other

type_synonym addr = nat

type_synonym store = "obj list"

text \<open>What \<^verbatim>\<open>len\<close> and \<^verbatim>\<open>enumerate\<close> see of the object at an address.\<close>

definition py_items :: "store \<Rightarrow> addr \<Rightarrow> error + vec list" where
  "py_items h p =
     (if p < length h
      then (case h ! p of Seq xs \<Rightarrow> Inr xs | Arr M \<Rightarrow> Inr (rows M) | Other \<Rightarrow> Inl TypeError)
      else Inl TypeError)"

definition alloc :: "store \<Rightarrow> obj \<Rightarrow> addr \<times> store" where
  "alloc h ob = (length h, h @ [ob])"

definition store_setitem :: "store \<Rightarrow> addr \<Rightarrow> nat \<times> nat \<Rightarrow> pynum \<Rightarrow> error + store" where
  "store_setitem h r ij v =
     (if r < length h
      then (case h ! r of
              Arr M \<Rightarrow> (case setitem M ij v of Inl e \<Rightarrow> Inl e | Inr M' \<Rightarrow> Inr (h[r := Arr M']))
            | Seq xs \<Rightarrow> Inl TypeError
            | Other \<Rightarrow> Inl TypeError)
      else Inl TypeError)"

text \<open>
  The body of \<^verbatim>\<open>gram\<close> on the store: \<open>r\<close> is the address held by the local
  variable \<^verbatim>\<open>gram\<close>. The items of \<^verbatim>\<open>A\<close> are read when the outer loop starts, those
  of \<^verbatim>\<open>B\<close> each time the inner loop starts, from the store as it is then. The kernel
  is a function of its arguments alone.
\<close>

fun store_inner ::
  "(vec \<Rightarrow> vec \<Rightarrow> pynum) \<Rightarrow> addr \<Rightarrow> nat \<Rightarrow> vec \<Rightarrow> (nat \<times> vec) list \<Rightarrow> store \<Rightarrow> error + store" where
  "store_inner k r id1 x1 [] h = Inr h"
| "store_inner k r id1 x1 ((id2, x2) # rest) h =
     (case store_setitem h r (id1, id2) (k x1 x2) of
        Inl e \<Rightarrow> Inl e
      | Inr h' \<Rightarrow> store_inner k r id1 x1 rest h')"

fun store_outer ::
  "(vec \<Rightarrow> vec \<Rightarrow> pynum) \<Rightarrow> addr \<Rightarrow> (nat \<times> vec) list \<Rightarrow> addr \<Rightarrow> store \<Rightarrow> error + store" where
  "store_outer k r [] pB h = Inr h"
| "store_outer k r ((id1, x1) # rest) pB h =
     (case py_items h pB of
        Inl e \<Rightarrow> Inl e
      | Inr B \<Rightarrow>
          (case store_inner k r id1 x1 (enumerate 0 B) h of
             Inl e \<Rightarrow> Inl e
           | Inr h' \<Rightarrow> store_outer k r rest pB h'))"

definition gram_store ::
  "(vec \<Rightarrow> vec \<Rightarrow> pynum) \<Rightarrow> store \<Rightarrow> addr \<Rightarrow> addr \<Rightarrow> error + addr \<times> store" where
  "gram_store k h pA pB =
     (case py_items h pA of
        Inl e \<Rightarrow> Inl e
      | Inr A \<Rightarrow>
          (case py_items h pB of
             Inl e \<Rightarrow> Inl e
           | Inr B \<Rightarrow>
               (case alloc h (Arr (np_zeros (length A, length B))) of
                  (r, h1) \<Rightarrow>
                    (case store_outer k r (enumerate 0 A) pB h1 of
                       Inl e \<Rightarrow> Inl e
                     | Inr h2 \<Rightarrow> Inr (r, h2)))))"

section \<open>The Ising model of the clustering notebook\<close>

text \<open>
  \<^verbatim>\<open>
  n_instances = 4
  class_1 = np.random.rand(n_instances//2, 3)/5
  class_2 = (0.6, 0.1, 0.05) + np.random.rand(n_instances//2, 3)/5
  data = np.concatenate((class_1, class_2))
  \<close>
  The data are random; in the model \<open>data\<close> is a parameter, a two-dimensional array whose
  rows are the points, and the loops take the number of instances as an argument.
\<close>

definition n_instances :: nat where
  "n_instances = 4"

text \<open>
  \<^verbatim>\<open>
  w = np.zeros((n_instances, n_instances))
  for i, j in itertools.product(*[range(n_instances)]*2):
      w[i, j] = np.linalg.norm(data[i]-data[j])
  \<close>
  \<^verbatim>\<open>data[i]\<close> is a row of the array (\<^verbatim>\<open>IndexError\<close> beyond the last row), the
  difference of two rows of one array is taken cell by cell, and the norm of a vector is
  the square root of the sum of its squared cells, a float.
\<close>

definition getrow :: "matrix \<Rightarrow> nat \<Rightarrow> error + vec" where
  "getrow M i = (if i < nrows M then Inr (rows M ! i) else Inl IndexError)"

definition vsub :: "vec \<Rightarrow> vec \<Rightarrow> vec" where
  "vsub x y = map2 (-) x y"

definition linalg_norm :: "vec \<Rightarrow> real" where
  "linalg_norm x = sqrt (sum_list (map (\<lambda>a. a * a) x))"

fun w_loop :: "matrix \<Rightarrow> (nat \<times> nat) list \<Rightarrow> matrix \<Rightarrow> error + matrix" where
  "w_loop data [] w = Inr w"
| "w_loop data ((i, j) # rest) w =
     (case getrow data i of
        Inl e \<Rightarrow> Inl e
      | Inr di \<Rightarrow>
          (case getrow data j of
             Inl e \<Rightarrow> Inl e
           | Inr dj \<Rightarrow>
               (case setitem w (i, j) (PyFloat (linalg_norm (vsub di dj))) of
                  Inl e \<Rightarrow> Inl e
                | Inr w' \<Rightarrow> w_loop data rest w')))"

definition compute_w :: "nat \<Rightarrow> matrix \<Rightarrow> error + matrix" where
  "compute_w n data = w_loop data (List.product [0..<n] [0..<n]) (np_zeros (n, n))"

text \<open>
  \<^verbatim>\<open>
  J, h = {}, {}
  for i in range(n_instances):
      h[i] = 0
      for j in range(i+1, n_instances):
          J[(i, j)] = w[i, j]

  model = dimod.BinaryQuadraticModel(h, J, 0.0, dimod.SPIN)
  \<close>
  The two dictionaries are maps; \<^verbatim>\<open>h\<close> holds the int \<open>0\<close>, \<^verbatim>\<open>J\<close> holds cells read from
  \<^verbatim>\<open>w\<close>. They are what the cell hands to the constructor of the sampler's library; the
  library is not part of the repository, and the object it builds is not modelled.
\<close>

type_synonym couplings = "nat \<times> nat \<rightharpoonup> real"

type_synonym fields = "nat \<rightharpoonup> pynum"

fun ising_inner :: "matrix \<Rightarrow> nat \<Rightarrow> nat list \<Rightarrow> couplings \<Rightarrow> error + couplings" where
  "ising_inner w i [] J = Inr J"
| "ising_inner w i (j # rest) J =
     (case getitem w (i, j) of
        Inl e \<Rightarrow> Inl e
      | Inr v \<Rightarrow> ising_inner w i rest (J((i, j) \<mapsto> v)))"

fun ising_outer ::
  "matrix \<Rightarrow> nat \<Rightarrow> nat list \<Rightarrow> couplings \<times> fields \<Rightarrow> error + couplings \<times> fields" where
  "ising_outer w n [] Jh = Inr Jh"
| "ising_outer w n (i # rest) (J, h) =
     (let h' = h(i \<mapsto> PyInt 0) in
      case ising_inner w i [i + 1..<n] J of
        Inl e \<Rightarrow> Inl e
      | Inr J' \<Rightarrow> ising_outer w n rest (J', h'))"

definition ising_dicts :: "nat \<Rightarrow> matrix \<Rightarrow> error + couplings \<times> fields" where
  "ising_dicts n w = ising_outer w n [0..<n] (Map.empty, Map.empty)"

text \<open>
  The Euclidean distance between the points \<open>i\<close> and \<open>j\<close> of the data.
\<close>

definition distance :: "matrix \<Rightarrow> nat \<Rightarrow> nat \<Rightarrow> real" where
  "distance data i j = linalg_norm (vsub (rows data ! i) (rows data ! j))"

section \<open>Kernels and predicates used in the statements\<close>

text \<open>
  A number that is stored as it is: a float, or an int of magnitude at most \<open>2 ^ 53\<close>
  (every such int is a double).
\<close>

fun exact_double :: "pynum \<Rightarrow> bool" where
  "exact_double (PyInt n) = (\<bar>n\<bar> \<le> 2 ^ 53)"
| "exact_double (PyFloat r) = True"

text \<open>
  Three kernels that a reader of the notebook may put in the place of the placeholder,
  used below as concrete inputs: on numbers, the sum and the product of two ints
  (\<^verbatim>\<open>return x1 + x2\<close>, \<^verbatim>\<open>return x1 * x2\<close>); on vectors of floats, the product of the
  sums of their cells.
\<close>

definition int_sum_kernel :: "int \<Rightarrow> int \<Rightarrow> pynum" where
  "int_sum_kernel x1 x2 = PyInt (x1 + x2)"

definition int_product_kernel :: "int \<Rightarrow> int \<Rightarrow> pynum" where
  "int_product_kernel x1 x2 = PyInt (x1 * x2)"

definition float_product_kernel :: "vec \<Rightarrow> vec \<Rightarrow> pynum" where
  "float_product_kernel x1 x2 = PyFloat (sum_list x1 * sum_list x2)"

section \<open>Conversion to a double\<close>

lemma excess_bits_bounds:
  "2 ^ 53 \<le> a \<Longrightarrow>
     0 < excess_bits a \<and> 2 ^ 52 * 2 ^ excess_bits a \<le> a \<and> a < 2 ^ 53 * 2 ^ excess_bits a"
proof (induction a rule: excess_bits.induct)
  case (1 a)
  have e: "excess_bits a = Suc (excess_bits (a div 2))"
    using "1.prems" by (subst excess_bits.simps) simp
  show ?case
  proof (cases "a div 2 < 2 ^ 53")
    case True
    then have "excess_bits (a div 2) = 0" by (subst excess_bits.simps) simp
    then show ?thesis using True "1.prems" by (simp add: e)
  next
    case False
    then have ih: "2 ^ 52 * 2 ^ excess_bits (a div 2) \<le> a div 2"
        "a div 2 < 2 ^ 53 * 2 ^ excess_bits (a div 2)"
      using "1.IH" "1.prems" by simp_all
    have "2 * (2 ^ 52 * 2 ^ excess_bits (a div 2)) \<le> a" using ih(1) by linarith
    moreover have "a < 2 * (2 ^ 53 * 2 ^ excess_bits (a div 2))" using ih(2) by linarith
    ultimately show ?thesis by (simp add: e)
  qed
qed

lemma abs_nearest_double: "\<bar>nearest_double n\<bar> = int (nearest_double_nat (nat \<bar>n\<bar>))"
proof (cases "n = 0")
  case True
  have "excess_bits 0 = 0" by (subst excess_bits.simps) simp
  then show ?thesis using True
    by (simp add: nearest_double_def nearest_double_nat_def)
next
  case False
  then have "\<bar>sgn n\<bar> = 1" by (simp add: abs_sgn_eq)
  then show ?thesis
    by (simp only: nearest_double_def abs_mult abs_of_nat mult_1)
qed

lemma round_above:
  fixes a q q' e :: nat
  assumes "972 \<le> e" "2 ^ 52 * 2 ^ e \<le> a" "2 ^ 52 \<le> q" "q \<le> q'"
  shows "2 ^ 1024 \<le> q' * 2 ^ e \<and> 2 ^ 1024 - 2 ^ 970 \<le> a"
proof -
  have "(2::nat) ^ 52 * 2 ^ 972 \<le> 2 ^ 52 * 2 ^ e"
    using assms(1) by (intro mult_le_mono2 power_increasing) simp_all
  moreover have "(2::nat) ^ 52 * 2 ^ 972 = 2 ^ 1024"
    by (simp flip: power_add)
  ultimately have big: "(2::nat) ^ 1024 \<le> 2 ^ 52 * 2 ^ e" by (simp only:)
  have "2 ^ 52 * 2 ^ e \<le> q' * 2 ^ e"
    using assms(3,4) by (intro mult_le_mono1) (rule order_trans)
  then have "2 ^ 1024 \<le> q' * 2 ^ e" using big by (rule order_trans[rotated])
  moreover have "(2::nat) ^ 1024 - 2 ^ 970 \<le> 2 ^ 1024" by (rule diff_le_self)
  then have "2 ^ 1024 - 2 ^ 970 \<le> a" using big assms(2) by (meson order_trans)
  ultimately show ?thesis by (rule conjI)
qed

lemma round_below:
  fixes a q q' e :: nat
  assumes "e \<le> 970" "a < 2 ^ 53 * 2 ^ e" "q < 2 ^ 53" "q' \<le> q + 1"
  shows "\<not> 2 ^ 1024 \<le> q' * 2 ^ e \<and> \<not> 2 ^ 1024 - 2 ^ 970 \<le> a"
proof -
  have p: "(2::nat) ^ e \<le> 2 ^ 970" using assms(1) by (intro power_increasing) simp_all
  have q': "q' \<le> 2 ^ 53" using assms(3,4) by linarith
  have "q' * 2 ^ e \<le> 2 ^ 53 * 2 ^ 970" using q' p by (rule mult_le_mono)
  also have "(2::nat) ^ 53 * 2 ^ 970 = 2 ^ 1023" by (simp flip: power_add)
  finally have le: "q' * 2 ^ e \<le> 2 ^ 1023" .
  have lt: "(2::nat) ^ 1023 < 2 ^ 1024" by (intro power_strict_increasing) simp_all
  have n1: "\<not> 2 ^ 1024 \<le> q' * 2 ^ e" using le lt by (meson leD le_less_trans)
  have "2 ^ 53 * 2 ^ e \<le> (2::nat) ^ 53 * 2 ^ 970" using p by (rule mult_le_mono2)
  also have "(2::nat) ^ 53 * 2 ^ 970 = 2 ^ 1023" by (simp flip: power_add)
  finally have "2 ^ 53 * 2 ^ e \<le> (2::nat) ^ 1023" .
  with assms(2) have "a < 2 ^ 1023" by (rule less_le_trans)
  moreover have "(2::nat) ^ 1023 \<le> 2 ^ 1024 - 2 ^ 970" by simp
  ultimately have "a < 2 ^ 1024 - 2 ^ 970" by (rule less_le_trans)
  then have n2: "\<not> 2 ^ 1024 - 2 ^ 970 \<le> a" by (simp only: not_le)
  show ?thesis using n1 n2 by (rule conjI)
qed

lemma round_boundary:
  fixes P q r :: nat
  assumes P: "0 < P" and r: "r < 2 * P" and q: "q < 2 ^ 53"
  shows "2 ^ 53 * (2 * P) \<le> (if 2 * P < 2 * r \<or> (2 * r = 2 * P \<and> odd q) then q + 1 else q) * (2 * P)
     \<longleftrightarrow> (2 ^ 53 - 1) * (2 * P) + P \<le> q * (2 * P) + r"
proof -
  define q' where "q' = (if 2 * P < 2 * r \<or> (2 * r = 2 * P \<and> odd q) then q + 1 else q)"
  have lhs: "2 ^ 53 * (2 * P) \<le> q' * (2 * P) \<longleftrightarrow> 2 ^ 53 \<le> q'"
    using P by (simp only: mult_le_cancel2) simp
  have odd53: "odd ((2::nat) ^ 53 - 1)" by simp
  have mid: "2 ^ 53 \<le> q' \<longleftrightarrow> q = 2 ^ 53 - 1 \<and> P \<le> r"
  proof (cases "q = 2 ^ 53 - 1")
    case True
    have "(2 * P < 2 * r \<or> (2 * r = 2 * P \<and> odd q)) \<longleftrightarrow> P \<le> r"
      using odd53 True by auto
    then show ?thesis using True by (simp add: q'_def)
  next
    case False
    then have "q + 1 < 2 ^ 53" using q by simp
    moreover have "q' \<le> q + 1" by (simp add: q'_def)
    ultimately show ?thesis using False by simp
  qed
  have rhs: "(2 ^ 53 - 1) * (2 * P) + P \<le> q * (2 * P) + r \<longleftrightarrow> q = 2 ^ 53 - 1 \<and> P \<le> r"
  proof (cases "q = 2 ^ 53 - 1")
    case True
    then show ?thesis by simp
  next
    case False
    then have "q + 1 \<le> 2 ^ 53 - 1" using q by simp
    then have "(q + 1) * (2 * P) \<le> (2 ^ 53 - 1) * (2 * P)" by (rule mult_le_mono1)
    moreover have "q * (2 * P) + r < (q + 1) * (2 * P)" using r by simp
    ultimately have "q * (2 * P) + r < (2 ^ 53 - 1) * (2 * P) + P" by linarith
    then show ?thesis using False by simp
  qed
  show ?thesis unfolding q'_def[symmetric] using lhs mid rhs by blast
qed

lemma nearest_double_nat_overflow:
  "2 ^ 1024 \<le> nearest_double_nat a \<longleftrightarrow> 2 ^ 1024 - 2 ^ 970 \<le> a"
proof (cases "a < 2 ^ 53")
  case True
  then have "excess_bits a = 0" by (subst excess_bits.simps) simp
  then have "nearest_double_nat a = a" by (simp add: nearest_double_nat_def)
  moreover have "(2::nat) ^ 53 \<le> 2 ^ 1024 - 2 ^ 970" by simp
  moreover have "(2::nat) ^ 53 \<le> 2 ^ 1024" by simp
  ultimately show ?thesis using True by linarith
next
  case False
  define e where "e = excess_bits a"
  define q where "q = a div 2 ^ e"
  define r where "r = a mod 2 ^ e"
  define c where "c \<longleftrightarrow> 2 ^ e < 2 * r \<or> (2 * r = 2 ^ e \<and> odd q)"
  have ro: "nearest_double_nat a = (if c then q + 1 else q) * 2 ^ e"
    by (simp add: nearest_double_nat_def e_def q_def r_def c_def Let_def)
  have b: "2 ^ 52 * 2 ^ e \<le> a" "a < 2 ^ 53 * 2 ^ e"
    using excess_bits_bounds[of a] False by (simp_all add: e_def)
  have a: "a = q * 2 ^ e + r" unfolding q_def r_def by (rule div_mult_mod_eq[symmetric])
  have r: "r < 2 ^ e" by (simp add: r_def)
  have q: "2 ^ 52 \<le> q" "q < 2 ^ 53"
  proof -
    show "2 ^ 52 \<le> q"
      using b(1) by (simp add: q_def less_eq_div_iff_mult_less_eq)
    show "q < 2 ^ 53"
      using b(2) by (simp add: q_def less_mult_imp_div_less)
  qed
  have q'_bounds: "q \<le> (if c then q + 1 else q)" "(if c then q + 1 else q) \<le> q + 1"
    by simp_all
  consider "972 \<le> e" | "e \<le> 970" | "e = 971" by linarith
  then show ?thesis
  proof cases
    case 1
    show ?thesis
      using round_above[OF 1 b(1) q(1) q'_bounds(1)] by (simp only: ro)
  next
    case 2
    show ?thesis
      using round_below[OF 2 b(2) q(2) q'_bounds(2)] by (simp only: ro)
  next
    case 3
    define P :: nat where "P = 2 ^ 970"
    have P: "0 < P" by (simp add: P_def)
    have pe: "(2::nat) ^ e = 2 * P" by (simp add: 3 P_def)
    have p1024: "(2::nat) ^ 1024 = 2 ^ 53 * (2 * P)" by (simp add: P_def)
    have T: "(2::nat) ^ 1024 - 2 ^ 970 = (2 ^ 53 - 1) * (2 * P) + P" by (simp add: P_def)
    have a_eq: "a = q * (2 * P) + r" using a by (simp only: pe)
    have r2: "r < 2 * P" using r by (simp only: pe)
    have c2: "c \<longleftrightarrow> 2 * P < 2 * r \<or> (2 * r = 2 * P \<and> odd q)" by (simp only: c_def pe)
    have "2 ^ 1024 \<le> nearest_double_nat a \<longleftrightarrow>
        2 ^ 53 * (2 * P) \<le> (if 2 * P < 2 * r \<or> (2 * r = 2 * P \<and> odd q) then q + 1 else q) * (2 * P)"
      by (simp only: ro pe p1024 c2)
    also have "\<dots> \<longleftrightarrow> (2 ^ 53 - 1) * (2 * P) + P \<le> q * (2 * P) + r"
      using P r2 q(2) by (rule round_boundary)
    also have "\<dots> \<longleftrightarrow> 2 ^ 1024 - 2 ^ 970 \<le> a"
      by (simp only: T a_eq[symmetric])
    finally show ?thesis .
  qed
qed

text \<open>
  A float never overflows; an int does exactly from the midpoint between the largest
  double and \<open>2 ^ 1024\<close> on.
\<close>

lemma overflows_PyFloat [simp]: "\<not> overflows (PyFloat r)"
  by (simp add: overflows_def)

lemma overflows_PyInt [simp]: "overflows (PyInt n) \<longleftrightarrow> 2 ^ 1024 - 2 ^ 970 \<le> \<bar>n\<bar>"
proof -
  have "(2::int) ^ 1024 = int (2 ^ 1024)" by simp
  then have "2 ^ 1024 \<le> \<bar>nearest_double n\<bar> \<longleftrightarrow> 2 ^ 1024 \<le> nearest_double_nat (nat \<bar>n\<bar>)"
    by (simp only: abs_nearest_double of_nat_le_iff)
  also have "\<dots> \<longleftrightarrow> 2 ^ 1024 - 2 ^ 970 \<le> nat \<bar>n\<bar>"
    by (rule nearest_double_nat_overflow)
  also have "\<dots> \<longleftrightarrow> 2 ^ 1024 - 2 ^ 970 \<le> \<bar>n\<bar>"
    by (simp add: le_nat_iff)
  finally show ?thesis by (simp add: overflows_def)
qed

lemma excess_bits_two53: "excess_bits 9007199254740992 = 1"
  by (simp add: excess_bits.simps)

lemma nearest_double_two53: "nearest_double (2 ^ 53) = 2 ^ 53"
  by (simp add: nearest_double_def nearest_double_nat_def excess_bits_two53)

lemma nearest_double_neg_two53: "nearest_double (- (2 ^ 53)) = - (2 ^ 53)"
  by (simp add: nearest_double_def nearest_double_nat_def excess_bits_two53)

lemma nearest_double_small: "\<bar>n\<bar> < 2 ^ 53 \<Longrightarrow> nearest_double n = n"
proof -
  assume a: "\<bar>n\<bar> < 2 ^ 53"
  then have "nat \<bar>n\<bar> < 2 ^ 53" by (simp add: nat_less_iff)
  then have "excess_bits (nat \<bar>n\<bar>) = 0" by (subst excess_bits.simps) simp
  then have "nearest_double n = sgn n * int (nat \<bar>n\<bar>)"
    by (simp add: nearest_double_def nearest_double_nat_def Let_def)
  also have "\<dots> = sgn n * \<bar>n\<bar>" by simp
  also have "\<dots> = n" by (simp add: sgn_mult_abs)
  finally show ?thesis .
qed

lemma nearest_double_exact: "\<bar>n\<bar> \<le> 2 ^ 53 \<Longrightarrow> nearest_double n = n"
proof -
  assume "\<bar>n\<bar> \<le> 2 ^ 53"
  then consider "\<bar>n\<bar> < 2 ^ 53" | "n = 2 ^ 53" | "n = - (2 ^ 53)"
    by linarith
  then show ?thesis
    by cases (simp_all only: nearest_double_small nearest_double_two53 nearest_double_neg_two53)
qed

lemma excess_bits_above: "excess_bits 9007199254740993 = 1"
  by (simp add: excess_bits.simps)

lemma nearest_double_above: "nearest_double 9007199254740993 = 9007199254740992"
  by (simp add: nearest_double_def nearest_double_nat_def excess_bits_above)

lemma float64_of_exact: "exact_double v \<Longrightarrow> float64_of v = py_value v"
  by (cases v) (simp_all add: nearest_double_exact)

lemma exact_double_converts: "exact_double v \<Longrightarrow> \<not> overflows v"
proof (cases v)
  case (PyInt n)
  assume "exact_double v"
  then have "\<bar>n\<bar> \<le> 2 ^ 53" using PyInt by simp
  moreover have "(2::int) ^ 53 < 2 ^ 1024 - 2 ^ 970" by simp
  ultimately show ?thesis using PyInt by simp
next
  case (PyFloat r)
  then show ?thesis by simp
qed

lemma kernel_converts: "\<not> overflows (kernel x1 x2)"
  by (simp add: kernel_def)

lemma float64_of_kernel: "float64_of (kernel x1 x2) = 0"
  by (simp add: kernel_def nearest_double_small)

section \<open>The loops in closed form\<close>

lemma gram_inner_run:
  assumes "id1 < nrows G" "length (rows G ! id1) = ncols G" "n + length ys \<le> ncols G"
  shows "gram_inner k id1 x1 (enumerate n ys) (G, s) =
     (case eval_row k x1 ys s of
        Inl err \<Rightarrow> Inl err
      | Inr (cs, s') \<Rightarrow>
          Inr (G\<lparr>rows := (rows G)[id1 := take n (rows G ! id1) @ cs
                                        @ drop (n + length ys) (rows G ! id1)]\<rparr>, s'))"
  using assms
proof (induction ys arbitrary: n G s)
  case Nil
  then show ?case by (simp add: nrows_def)
next
  case (Cons y ys)
  obtain v s1 where k: "k x1 y s = (v, s1)" by (cases "k x1 y s")
  show ?case
  proof (cases "overflows v")
    case True
    then show ?thesis using Cons.prems by (simp add: k setitem_def to_float64_def)
  next
    case False
    let ?c = "float64_of v"
    let ?G = "G\<lparr>rows := (rows G)[id1 := (rows G ! id1)[n := ?c]]\<rparr>"
    have s: "setitem G (id1, n) v = Inr ?G"
      using Cons.prems False by (simp add: setitem_def to_float64_def)
    have a: "id1 < nrows ?G" "length (rows ?G ! id1) = ncols ?G" "Suc n + length ys \<le> ncols ?G"
      using Cons.prems by (simp_all add: nrows_def)
    have r: "take (Suc n) ((rows G ! id1)[n := ?c]) = take n (rows G ! id1) @ [?c]"
      using Cons.prems by (simp add: take_Suc_conv_app_nth)
    show ?thesis
      using Cons.prems False
      by (simp add: k s Cons.IH[OF a] nrows_def r split: sum.split prod.split)
  qed
qed

lemma gram_inner_row:
  assumes "id1 < nrows G" "length (rows G ! id1) = length B" "ncols G = length B"
  shows "gram_inner k id1 x1 (enumerate 0 B) (G, s) =
     (case eval_row k x1 B s of
        Inl err \<Rightarrow> Inl err
      | Inr (cs, s') \<Rightarrow> Inr (G\<lparr>rows := (rows G)[id1 := cs]\<rparr>, s'))"
  using gram_inner_run[of id1 G 0 B k x1 s] assms by (simp split: sum.split prod.split)

lemma gram_outer_run:
  assumes "m + length xs \<le> nrows G" "ncols G = length B"
    and "\<forall>i. m \<le> i \<and> i < m + length xs \<longrightarrow> length (rows G ! i) = length B"
  shows "gram_outer k (enumerate m xs) B (G, s) =
     (case eval_rows k xs B s of
        Inl err \<Rightarrow> Inl err
      | Inr (rs, s') \<Rightarrow>
          Inr (G\<lparr>rows := take m (rows G) @ rs @ drop (m + length xs) (rows G)\<rparr>, s'))"
  using assms
proof (induction xs arbitrary: m G s)
  case Nil
  then show ?case by simp
next
  case (Cons x xs)
  have i: "gram_inner k m x (enumerate 0 B) (G, s) =
     (case eval_row k x B s of
        Inl err \<Rightarrow> Inl err
      | Inr (cs, s') \<Rightarrow> Inr (G\<lparr>rows := (rows G)[m := cs]\<rparr>, s'))"
    using Cons.prems by (intro gram_inner_row) simp_all
  show ?case
  proof (cases "eval_row k x B s")
    case (Inl err)
    then show ?thesis by (simp add: i)
  next
    case (Inr res)
    obtain cs s1 where res: "res = (cs, s1)" by (cases res)
    let ?G = "G\<lparr>rows := (rows G)[m := cs]\<rparr>"
    have a: "Suc m + length xs \<le> nrows ?G" "ncols ?G = length B"
      "\<forall>i. Suc m \<le> i \<and> i < Suc m + length xs \<longrightarrow> length (rows ?G ! i) = length B"
      using Cons.prems by (simp_all add: nrows_def)
    have r: "take (Suc m) ((rows G)[m := cs]) = take m (rows G) @ [cs]"
      using Cons.prems by (simp add: take_Suc_conv_app_nth nrows_def)
    show ?thesis
      by (simp add: i Inr res Cons.IH[OF a] r split: sum.split prod.split)
  qed
qed

lemma gram_run_eval:
  "gram_run k A B s =
     (case eval_rows k A B s of
        Inl err \<Rightarrow> Inl err
      | Inr (rs, s') \<Rightarrow> Inr (\<lparr>ncols = length B, rows = rs\<rparr>, s'))"
proof -
  let ?Z = "np_zeros (length A, length B)"
  have "gram_outer k (enumerate 0 A) B (?Z, s) =
     (case eval_rows k A B s of
        Inl err \<Rightarrow> Inl err
      | Inr (rs, s') \<Rightarrow>
          Inr (?Z\<lparr>rows := take 0 (rows ?Z) @ rs @ drop (0 + length A) (rows ?Z)\<rparr>, s'))"
    by (rule gram_outer_run) (simp_all add: np_zeros_def nrows_def)
  then show ?thesis
    by (simp add: gram_run_def np_zeros_def split: sum.split prod.split)
qed

lemma eval_row_pure:
  "eval_row (pure_kernel k) x ys s =
     (if list_ex (\<lambda>y. overflows (k x y)) ys then Inl (OverflowError, s)
      else Inr (map (\<lambda>y. float64_of (k x y)) ys, s))"
  by (induction ys) (simp_all add: pure_kernel_def)

lemma eval_rows_pure:
  "eval_rows (pure_kernel k) xs ys s =
     (if list_ex (\<lambda>x. list_ex (\<lambda>y. overflows (k x y)) ys) xs then Inl (OverflowError, s)
      else Inr (map (\<lambda>x. map (\<lambda>y. float64_of (k x y)) ys) xs, s))"
  by (induction xs) (simp_all add: eval_row_pure)

lemma gram_closed:
  "gram k A B =
     (if list_ex (\<lambda>x. list_ex (\<lambda>y. overflows (k x y)) B) A then Inl OverflowError
      else Inr \<lparr>ncols = length B, rows = map (\<lambda>x. map (\<lambda>y. float64_of (k x y)) B) A\<rparr>)"
  by (simp add: gram_def gram_run_eval eval_rows_pure)

lemma kernel_steps_append:
  "kernel_steps k (ps @ qs) s = kernel_steps k qs (kernel_steps k ps s)"
  by (simp add: kernel_steps_def)

lemma kernel_steps_Cons:
  "kernel_steps k ((x, y) # ps) s = kernel_steps k ps (snd (k x y s))"
  by (simp add: kernel_steps_def)

lemma eval_row_state:
  "eval_row k x ys s = Inr (cs, s') \<Longrightarrow> s' = kernel_steps k (map (Pair x) ys) s"
proof (induction ys arbitrary: s cs)
  case Nil
  then show ?case by (simp add: kernel_steps_def)
next
  case (Cons y ys)
  then show ?case
    by (auto simp: kernel_steps_Cons split: prod.splits if_splits sum.splits)
qed

lemma eval_rows_state:
  "eval_rows k xs ys s = Inr (rs, s') \<Longrightarrow> s' = kernel_steps k (List.product xs ys) s"
proof (induction xs arbitrary: s rs)
  case Nil
  then show ?case by (simp add: kernel_steps_def)
next
  case (Cons x xs)
  then show ?case
    by (auto simp: kernel_steps_append dest!: eval_row_state split: prod.splits sum.splits)
qed

lemma eval_row_raise:
  "eval_row k x ys s = Inl (e, s') \<Longrightarrow>
     e = OverflowError \<and>
     (\<exists>m<length ys. s' = kernel_steps k (take (Suc m) (map (Pair x) ys)) s)"
proof (induction ys arbitrary: s)
  case Nil
  then show ?case by simp
next
  case (Cons y ys)
  obtain v s1 where k: "k x y s = (v, s1)" by (cases "k x y s")
  show ?case
  proof (cases "overflows v")
    case True
    then have "e = OverflowError" "s' = kernel_steps k (take (Suc 0) (map (Pair x) (y # ys))) s"
      using Cons.prems by (simp_all add: k kernel_steps_def)
    then show ?thesis by blast
  next
    case False
    then have "eval_row k x ys s1 = Inl (e, s')"
      using Cons.prems by (simp add: k split: sum.splits prod.splits)
    then obtain m where m: "e = OverflowError" "m < length ys"
        "s' = kernel_steps k (take (Suc m) (map (Pair x) ys)) s1"
      using Cons.IH by blast
    then have "Suc m < length (y # ys)"
        "s' = kernel_steps k (take (Suc (Suc m)) (map (Pair x) (y # ys))) s"
      by (simp_all add: kernel_steps_Cons k)
    then show ?thesis using m(1) by blast
  qed
qed

lemma eval_rows_raise:
  "eval_rows k xs ys s = Inl (e, s') \<Longrightarrow>
     e = OverflowError \<and>
     (\<exists>m<length xs * length ys. s' = kernel_steps k (take (Suc m) (List.product xs ys)) s)"
proof (induction xs arbitrary: s)
  case Nil
  then show ?case by simp
next
  case (Cons x xs)
  show ?case
  proof (cases "eval_row k x ys s")
    case (Inl err)
    then have "eval_row k x ys s = Inl (e, s')" using Cons.prems by simp
    then obtain m where m: "e = OverflowError" "m < length ys"
        "s' = kernel_steps k (take (Suc m) (map (Pair x) ys)) s"
      using eval_row_raise[of k x ys s e s'] by blast
    then have "m < length (x # xs) * length ys"
        "s' = kernel_steps k (take (Suc m) (List.product (x # xs) ys)) s"
      by simp_all
    then show ?thesis using m(1) by blast
  next
    case (Inr res)
    obtain cs s1 where res: "res = (cs, s1)" by (cases res)
    have s1: "s1 = kernel_steps k (map (Pair x) ys) s"
      using Inr res by (auto dest: eval_row_state)
    have "eval_rows k xs ys s1 = Inl (e, s')"
      using Cons.prems Inr res by (simp split: sum.splits prod.splits)
    then obtain m where m: "e = OverflowError" "m < length xs * length ys"
        "s' = kernel_steps k (take (Suc m) (List.product xs ys)) s1"
      using Cons.IH by blast
    then have "length ys + m < length (x # xs) * length ys"
        "s' = kernel_steps k (take (Suc (length ys + m)) (List.product (x # xs) ys)) s"
      by (simp_all add: s1 kernel_steps_append)
    then show ?thesis using m(1) by blast
  qed
qed

lemma kernel_steps_counting: "kernel_steps (counting f) ps n = n + length ps"
  by (induction ps arbitrary: n) (simp_all add: kernel_steps_def counting_def)

lemma kernel_steps_tracing: "kernel_steps (tracing f) ps tr = tr @ ps"
  by (induction ps arbitrary: tr) (simp_all add: kernel_steps_def tracing_def)

lemma eval_row_observer:
  assumes "\<forall>y s. fst (k x y s) = f x y" "\<forall>y \<in> set ys. \<not> overflows (f x y)"
  shows "eval_row k x ys s =
     Inr (map (\<lambda>y. float64_of (f x y)) ys, kernel_steps k (map (Pair x) ys) s)"
  using assms(2)
proof (induction ys arbitrary: s)
  case Nil
  then show ?case by (simp add: kernel_steps_def)
next
  case (Cons y ys)
  obtain v s1 where k: "k x y s = (v, s1)" by (cases "k x y s")
  have v: "v = f x y" using assms(1) k by (metis fst_conv)
  show ?case
    using Cons by (simp add: k v kernel_steps_Cons)
qed

lemma eval_rows_observer:
  assumes "\<forall>x y s. fst (k x y s) = f x y" "\<forall>x \<in> set xs. \<forall>y \<in> set ys. \<not> overflows (f x y)"
  shows "eval_rows k xs ys s =
     Inr (map (\<lambda>x. map (\<lambda>y. float64_of (f x y)) ys) xs,
          kernel_steps k (List.product xs ys) s)"
  using assms(2)
proof (induction xs arbitrary: s)
  case Nil
  then show ?case by (simp add: kernel_steps_def)
next
  case (Cons x xs)
  have "eval_row k x ys s =
     Inr (map (\<lambda>y. float64_of (f x y)) ys, kernel_steps k (map (Pair x) ys) s)"
    using assms(1) Cons.prems by (intro eval_row_observer) simp_all
  then show ?case
    using Cons by (simp add: kernel_steps_append)
qed

lemma gram_run_observer:
  assumes "\<forall>x y s. fst (k x y s) = f x y" "\<forall>x \<in> set A. \<forall>y \<in> set B. \<not> overflows (f x y)"
  shows "gram_run k A B s =
     Inr (\<lparr>ncols = length B, rows = map (\<lambda>x. map (\<lambda>y. float64_of (f x y)) B) A\<rparr>,
          kernel_steps k (List.product A B) s)"
  by (simp add: gram_run_eval eval_rows_observer[OF assms])

lemma gram_run_state:
  "gram_run k A B s = Inr (G, s') \<Longrightarrow> s' = kernel_steps k (List.product A B) s"
  by (auto simp: gram_run_eval dest: eval_rows_state split: sum.splits prod.splits)

lemma gram_run_raise:
  "gram_run k A B s = Inl (e, s') \<Longrightarrow>
     e = OverflowError \<and>
     (\<exists>m<length A * length B. s' = kernel_steps k (take (Suc m) (List.product A B)) s)"
  using eval_rows_raise[of k A B s e s']
  by (auto simp: gram_run_eval split: sum.splits prod.splits)

lemma product_index:
  assumes "i < length A" "j < length B"
  shows "i * length B + j < length A * length B"
    and "List.product A B ! (i * length B + j) = (A ! i, B ! j)"
proof -
  have "i * length B + j < Suc i * length B" using assms by simp
  also have "\<dots> \<le> length A * length B" using assms by (intro mult_le_mono1) simp
  finally show lt: "i * length B + j < length A * length B" .
  have "length B \<noteq> 0" using assms by auto
  then have dm: "(i * length B + j) div length B = i" "(i * length B + j) mod length B = j"
    using assms by simp_all
  show "List.product A B ! (i * length B + j) = (A ! i, B ! j)"
    using lt assms by (simp add: product_nth dm del: mod_mult_self3 mod_mult_self4)
qed

lemma row_major_less:
  assumes "j < n" "j' < n" "i < i' \<or> (i = i' \<and> j < j')"
  shows "i * n + j < i' * n + (j' :: nat)"
proof (cases "i < i'")
  case True
  have "i * n + j < Suc i * n" using assms by simp
  also have "\<dots> \<le> i' * n" using True by (intro mult_le_mono1) simp
  finally show ?thesis by simp
next
  case False
  then show ?thesis using assms by simp
qed

section \<open>The store-level call refines the value-level one\<close>

lemma py_items_cases: "py_items h p = Inl TypeError \<or> (\<exists>xs. py_items h p = Inr xs)"
  by (simp add: py_items_def split: obj.split)

lemma py_items_in_store: "py_items h p = Inr xs \<Longrightarrow> p < length h"
  by (simp add: py_items_def split: if_splits)

lemma py_items_update: "p \<noteq> r \<Longrightarrow> py_items (h[r := ob]) p = py_items h p"
  by (simp add: py_items_def)

lemma py_items_append: "p < length h \<Longrightarrow> py_items (h @ hs) p = py_items h p"
  by (simp add: py_items_def nth_append)

lemma store_update_same: "h ! r = ob \<Longrightarrow> h[r := ob] = h"
  by auto

lemma gram_inner_pure_step:
  "gram_inner (pure_kernel k) id1 x1 ((id2, x2) # rest) (G, ()) =
     (case setitem G (id1, id2) (k x1 x2) of
        Inl e \<Rightarrow> Inl (e, ())
      | Inr G' \<Rightarrow> gram_inner (pure_kernel k) id1 x1 rest (G', ()))"
  by (simp add: pure_kernel_def)

lemma store_inner_refines:
  assumes "r < length h" "h ! r = Arr G"
  shows "store_inner k r id1 x1 items h =
     map_sum fst (\<lambda>st. h[r := Arr (fst st)]) (gram_inner (pure_kernel k) id1 x1 items (G, ()))"
  using assms
proof (induction items arbitrary: h G)
  case Nil
  then show ?case by (simp add: store_update_same)
next
  case (Cons it items)
  obtain id2 x2 where it: "it = (id2, x2)" by (cases it)
  show ?case
  proof (cases "setitem G (id1, id2) (k x1 x2)")
    case (Inl e)
    then show ?thesis using Cons.prems by (simp add: it store_setitem_def gram_inner_pure_step del: gram_inner.simps)
  next
    case (Inr G')
    have "store_inner k r id1 x1 items (h[r := Arr G']) =
        map_sum fst (\<lambda>st. (h[r := Arr G'])[r := Arr (fst st)])
          (gram_inner (pure_kernel k) id1 x1 items (G', ()))"
      using Cons.prems by (intro Cons.IH) simp_all
    then show ?thesis using Cons.prems Inr by (simp add: it store_setitem_def gram_inner_pure_step del: gram_inner.simps)
  qed
qed

lemma store_outer_refines:
  assumes "r < length h" "h ! r = Arr G" "py_items h pB = Inr B" "pB \<noteq> r"
  shows "store_outer k r items pB h =
     map_sum fst (\<lambda>st. h[r := Arr (fst st)]) (gram_outer (pure_kernel k) items B (G, ()))"
  using assms
proof (induction items arbitrary: h G)
  case Nil
  then show ?case by (simp add: store_update_same)
next
  case (Cons it items)
  obtain id1 x1 where it: "it = (id1, x1)" by (cases it)
  have inner: "store_inner k r id1 x1 (enumerate 0 B) h =
     map_sum fst (\<lambda>st. h[r := Arr (fst st)])
       (gram_inner (pure_kernel k) id1 x1 (enumerate 0 B) (G, ()))"
    using Cons.prems by (intro store_inner_refines) simp_all
  show ?case
  proof (cases "gram_inner (pure_kernel k) id1 x1 (enumerate 0 B) (G, ())")
    case (Inl err)
    then show ?thesis using Cons.prems inner by (simp add: it)
  next
    case (Inr st)
    obtain G' u where st: "st = (G', u)" by (cases st)
    have u: "u = ()" by simp
    have "store_outer k r items pB (h[r := Arr G']) =
        map_sum fst (\<lambda>st. (h[r := Arr G'])[r := Arr (fst st)])
          (gram_outer (pure_kernel k) items B (G', ()))"
      using Cons.prems by (intro Cons.IH) (simp_all add: py_items_update)
    then show ?thesis using Cons.prems inner Inr st u by (simp add: it)
  qed
qed

lemma gram_store_refines:
  assumes "py_items h pA = Inr A" "py_items h pB = Inr B"
  shows "gram_store k h pA pB =
     (case gram k A B of Inl e \<Rightarrow> Inl e | Inr G \<Rightarrow> Inr (length h, h @ [Arr G]))"
proof -
  let ?Z = "np_zeros (length A, length B)"
  let ?h1 = "h @ [Arr ?Z]"
  have pB: "pB < length h" using assms(2) by (rule py_items_in_store)
  have "store_outer k (length h) (enumerate 0 A) pB ?h1 =
      map_sum fst (\<lambda>st. ?h1[length h := Arr (fst st)])
        (gram_outer (pure_kernel k) (enumerate 0 A) B (?Z, ()))"
    using assms pB by (intro store_outer_refines) (simp_all add: py_items_append)
  then show ?thesis
    using assms
    by (simp add: gram_store_def alloc_def gram_def gram_run_def split: sum.split)
qed

lemma gram_store_error:
  "gram_store k h pA pB = Inl e \<longleftrightarrow>
     (e = TypeError \<and> (py_items h pA = Inl TypeError \<or> py_items h pB = Inl TypeError)) \<or>
     (\<exists>A B. py_items h pA = Inr A \<and> py_items h pB = Inr B \<and> gram k A B = Inl e)"
proof -
  consider "py_items h pA = Inl TypeError"
    | A where "py_items h pA = Inr A" "py_items h pB = Inl TypeError"
    | A B where "py_items h pA = Inr A" "py_items h pB = Inr B"
    using py_items_cases[of h pA] py_items_cases[of h pB] by blast
  then show ?thesis
  proof cases
    case 1
    then show ?thesis by (auto simp: gram_store_def)
  next
    case 2
    then show ?thesis by (auto simp: gram_store_def)
  next
    case 3
    then show ?thesis by (auto simp: gram_store_refines split: sum.splits)
  qed
qed

section \<open>The loops of the clustering notebook\<close>

lemma setitem_run:
  assumes "wf_matrix w" "i < nrows w" "j < ncols w"
  shows "\<exists>w'. setitem w (i, j) (PyFloat v) = Inr w' \<and> wf_matrix w' \<and> nrows w' = nrows w \<and>
           ncols w' = ncols w \<and>
           (\<forall>a b. getitem w' (a, b) = (if (a, b) = (i, j) then Inr v else getitem w (a, b)))"
proof -
  let ?w = "w\<lparr>rows := (rows w)[i := (rows w ! i)[j := v]]\<rparr>"
  have len: "length (rows w ! i) = ncols w"
    using assms by (simp add: wf_matrix_def list_all_length nrows_def)
  have "setitem w (i, j) (PyFloat v) = Inr ?w"
    using assms by (simp add: setitem_def to_float64_def)
  moreover have "wf_matrix ?w"
    using assms by (auto simp: wf_matrix_def list_all_length nth_list_update nrows_def)
  moreover have "nrows ?w = nrows w" "ncols ?w = ncols w"
    by (simp_all add: nrows_def)
  moreover have "getitem ?w (a, b) = (if (a, b) = (i, j) then Inr v else getitem w (a, b))"
    for a b
    using assms len by (simp add: getitem_def nrows_def nth_list_update)
  ultimately show ?thesis by blast
qed

lemma w_loop_run:
  assumes "wf_matrix w" "nrows w = n" "ncols w = n" "nrows data = n"
    and "\<forall>p \<in> set ps. fst p < n \<and> snd p < n"
  shows "\<exists>w'. w_loop data ps w = Inr w' \<and> wf_matrix w' \<and> nrows w' = n \<and> ncols w' = n \<and>
           (\<forall>a b. getitem w' (a, b) =
              (if (a, b) \<in> set ps then Inr (distance data a b) else getitem w (a, b)))"
  using assms
proof (induction ps arbitrary: w)
  case Nil
  then show ?case by simp
next
  case (Cons p ps)
  obtain i j where p: "p = (i, j)" by (cases p)
  have ij: "i < n" "j < n" using Cons.prems p by simp_all
  obtain w1 where w1: "setitem w (i, j) (PyFloat (distance data i j)) = Inr w1" "wf_matrix w1"
      "nrows w1 = n" "ncols w1 = n"
      "\<forall>a b. getitem w1 (a, b) =
         (if (a, b) = (i, j) then Inr (distance data i j) else getitem w (a, b))"
    using setitem_run[of w i j "distance data i j"] Cons.prems ij by auto
  obtain w' where w': "w_loop data ps w1 = Inr w'" "wf_matrix w'" "nrows w' = n" "ncols w' = n"
      "\<forall>a b. getitem w' (a, b) =
         (if (a, b) \<in> set ps then Inr (distance data a b) else getitem w1 (a, b))"
    using Cons.IH[of w1] w1 Cons.prems by auto
  have "w_loop data (p # ps) w = Inr w'"
    using Cons.prems ij w1(1) w'(1) by (simp add: p getrow_def distance_def)
  moreover have "getitem w' (a, b) =
      (if (a, b) \<in> set (p # ps) then Inr (distance data a b) else getitem w (a, b))" for a b
    using w'(5) w1(5) by (auto simp: p)
  ultimately show ?case using w' by blast
qed

lemma compute_w_run:
  assumes "nrows data = n"
  shows "\<exists>w. compute_w n data = Inr w \<and> wf_matrix w \<and> nrows w = n \<and> ncols w = n \<and>
           (\<forall>a<n. \<forall>b<n. getitem w (a, b) = Inr (distance data a b))"
proof -
  have "\<exists>w'. w_loop data (List.product [0..<n] [0..<n]) (np_zeros (n, n)) = Inr w' \<and>
      wf_matrix w' \<and> nrows w' = n \<and> ncols w' = n \<and>
      (\<forall>a b. getitem w' (a, b) =
         (if (a, b) \<in> set (List.product [0..<n] [0..<n]) then Inr (distance data a b)
          else getitem (np_zeros (n, n)) (a, b)))"
    using assms
    by (intro w_loop_run) (auto simp: wf_matrix_def np_zeros_def nrows_def list_all_iff)
  then show ?thesis
    by (auto simp: compute_w_def)
qed

lemma ising_inner_run:
  assumes "i < nrows w" "\<forall>j \<in> set js. j < ncols w"
  shows "ising_inner w i js J =
     Inr (\<lambda>p. if fst p = i \<and> snd p \<in> set js then Some (rows w ! i ! snd p) else J p)"
  using assms
proof (induction js arbitrary: J)
  case Nil
  then show ?case by simp
next
  case (Cons j js)
  have g: "getitem w (i, j) = Inr (rows w ! i ! j)"
    using Cons.prems by (simp add: getitem_def)
  have "ising_inner w i js (J((i, j) \<mapsto> rows w ! i ! j)) =
     Inr (\<lambda>p. if fst p = i \<and> snd p \<in> set js then Some (rows w ! i ! snd p)
               else (J((i, j) \<mapsto> rows w ! i ! j)) p)"
    using Cons.prems by (intro Cons.IH) simp_all
  then show ?case
    by (auto simp: g intro!: ext)
qed

lemma ising_outer_run:
  assumes "nrows w = n" "ncols w = n" "\<forall>i \<in> set ids. i < n"
  shows "ising_outer w n ids (J, h) =
     Inr (\<lambda>p. if fst p \<in> set ids \<and> fst p < snd p \<and> snd p < n
               then Some (rows w ! fst p ! snd p) else J p,
          \<lambda>i. if i \<in> set ids then Some (PyInt 0) else h i)"
  using assms
proof (induction ids arbitrary: J h)
  case Nil
  then show ?case by simp
next
  case (Cons i ids)
  let ?J = "\<lambda>p. if fst p = i \<and> i < snd p \<and> snd p < n then Some (rows w ! i ! snd p) else J p"
  have "ising_inner w i [i + 1..<n] J =
     Inr (\<lambda>p. if fst p = i \<and> snd p \<in> set [i + 1..<n] then Some (rows w ! i ! snd p) else J p)"
    using Cons.prems by (intro ising_inner_run) simp_all
  also have "(\<lambda>p. if fst p = i \<and> snd p \<in> set [i + 1..<n] then Some (rows w ! i ! snd p)
                 else J p) = ?J"
    by (auto intro!: ext)
  finally have inner: "ising_inner w i [i + 1..<n] J = Inr ?J" .
  have outer: "ising_outer w n ids (?J, h(i \<mapsto> PyInt 0)) =
     Inr (\<lambda>p. if fst p \<in> set ids \<and> fst p < snd p \<and> snd p < n
               then Some (rows w ! fst p ! snd p) else ?J p,
          \<lambda>a. if a \<in> set ids then Some (PyInt 0) else (h(i \<mapsto> PyInt 0)) a)"
    using Cons.prems by (intro Cons.IH) simp_all
  have eqJ: "(\<lambda>p. if fst p \<in> set ids \<and> fst p < snd p \<and> snd p < n
               then Some (rows w ! fst p ! snd p) else ?J p) =
      (\<lambda>p. if fst p \<in> set (i # ids) \<and> fst p < snd p \<and> snd p < n
               then Some (rows w ! fst p ! snd p) else J p)"
    by (auto intro!: ext)
  have eqh: "(\<lambda>a. if a \<in> set ids then Some (PyInt 0) else (h(i \<mapsto> PyInt 0)) a) =
      (\<lambda>a. if a \<in> set (i # ids) then Some (PyInt 0) else h a)"
    by (auto intro!: ext)
  show ?case
    by (simp only: ising_outer.simps Let_def inner sum.case outer eqJ eqh)
qed

lemma ising_dicts_run:
  assumes "nrows w = n" "ncols w = n"
  shows "ising_dicts n w =
     Inr (\<lambda>p. if fst p < snd p \<and> snd p < n then Some (rows w ! fst p ! snd p) else None,
          \<lambda>i. if i < n then Some (PyInt 0) else None)"
proof -
  have "ising_outer w n [0..<n] (Map.empty, Map.empty) =
     Inr (\<lambda>p. if fst p \<in> set [0..<n] \<and> fst p < snd p \<and> snd p < n
               then Some (rows w ! fst p ! snd p) else None,
          \<lambda>i. if i \<in> set [0..<n] then Some (PyInt 0) else None)"
    using assms by (intro ising_outer_run) simp_all
  moreover have "(\<lambda>p. if fst p \<in> set [0..<n] \<and> fst p < snd p \<and> snd p < n
               then Some (rows w ! fst p ! snd p) else None) =
       (\<lambda>p. if fst p < snd p \<and> snd p < n then Some (rows w ! fst p ! snd p) else None)"
    by (auto intro!: ext)
  ultimately show ?thesis
    by (simp add: ising_dicts_def)
qed

section \<open>The claims about the Gram matrix\<close>

text \<open>
  Claim C1, as amended. For all finite sequences \<open>A\<close> and \<open>B\<close>, \<^verbatim>\<open>gram(A, B)\<close> raises
  \<^verbatim>\<open>OverflowError\<close> if some kernel value is an int too large for a double, and otherwise
  returns an array of shape \<open>(|A|, |B|)\<close> whose cell \<open>(i, j)\<close> is the kernel of \<open>A[i]\<close> and
  \<open>B[j]\<close> converted to a double: the kernel value itself when that is a float or an int of
  magnitude at most \<open>2 ^ 53\<close>.
\<close>

theorem gram_entries:
  "(if \<exists>x \<in> set A. \<exists>y \<in> set B. overflows (k x y)
    then gram k A B = Inl OverflowError
    else \<exists>G. gram k A B = Inr G \<and> shape G = (length A, length B) \<and>
           (\<forall>i<length A. \<forall>j<length B.
              getitem G (i, j) = to_float64 (k (A ! i) (B ! j)) \<and>
              (exact_double (k (A ! i) (B ! j)) \<longrightarrow>
                 getitem G (i, j) = Inr (py_value (k (A ! i) (B ! j))))))"
proof (cases "\<exists>x \<in> set A. \<exists>y \<in> set B. overflows (k x y)")
  case True
  then show ?thesis by (simp add: gram_closed list_ex_iff)
next
  case False
  then have "to_float64 (k (A ! i) (B ! j)) = Inr (float64_of (k (A ! i) (B ! j)))"
    if "i < length A" "j < length B" for i j
    using that by (simp add: to_float64_def)
  then show ?thesis
    using False
    by (simp add: gram_closed list_ex_iff shape_def nrows_def getitem_def float64_of_exact)
qed

theorem gram_entries_witness:
  "\<exists>G. gram int_sum_kernel [1, 2] [3] = Inr G \<and> shape G = (2, 1) \<and>
       getitem G (1, 0) = Inr 5"
proof -
  have a: "\<not> (\<exists>x \<in> set [1, 2 :: int]. \<exists>y \<in> set [3 :: int]. overflows (int_sum_kernel x y))"
    by (simp add: int_sum_kernel_def)
  have b: "exact_double (int_sum_kernel ([1, 2] ! 1) ([3] ! 0))"
    by (simp add: int_sum_kernel_def)
  have c: "py_value (int_sum_kernel ([1, 2] ! 1) ([3] ! 0)) = 5"
    by (simp add: int_sum_kernel_def)
  from a gram_entries[of "[1, 2]" "[3]" int_sum_kernel]
  obtain G where G: "gram int_sum_kernel [1, 2] [3] = Inr G"
      "shape G = (length [1, 2 :: int], length [3 :: int])"
      "\<forall>i<length [1, 2 :: int]. \<forall>j<length [3 :: int].
         getitem G (i, j) = to_float64 (int_sum_kernel ([1, 2] ! i) ([3] ! j)) \<and>
         (exact_double (int_sum_kernel ([1, 2] ! i) ([3] ! j)) \<longrightarrow>
            getitem G (i, j) = Inr (py_value (int_sum_kernel ([1, 2] ! i) ([3] ! j))))"
    by (simp only: if_False) blast
  have "1 < length [1, 2 :: int]" "0 < length [3 :: int]" by simp_all
  from G(3)[rule_format, OF this]
  have "getitem G (1, 0) = Inr (py_value (int_sum_kernel ([1, 2] ! 1) ([3] ! 0)))"
    using b by blast
  then have "getitem G (1, 0) = Inr 5" by (simp only: c)
  then show ?thesis using G(1,2) by simp
qed

text \<open>
  Claim C1 as the specification states it, every cell equal to the kernel value, fails for
  a kernel value that is not a double: the sum kernel on \<open>2 ^ 53\<close> and \<open>1\<close> returns
  \<open>2 ^ 53 + 1\<close>, and the cell holds \<open>2 ^ 53\<close>.
\<close>

theorem gram_entries_counterexample:
  "gram int_sum_kernel [9007199254740992] [1] = Inr \<lparr>ncols = 1, rows = [[9007199254740992]]\<rparr> \<and>
   getitem \<lparr>ncols = 1, rows = [[9007199254740992]]\<rparr> (0, 0)
     \<noteq> Inr (py_value (int_sum_kernel 9007199254740992 1))"
  by (simp add: gram_closed int_sum_kernel_def nearest_double_above getitem_def nrows_def)

text \<open>
  Claim C2, as amended. With a symmetric kernel none of whose values on \<open>A\<close> is too large
  for a double, passing \<open>A\<close> into both slots gives a square array of shape \<open>(|A|, |A|)\<close>
  whose cells \<open>(i, j)\<close> and \<open>(j, i)\<close> agree; two sequences of different lengths give, under
  the same proviso, an array with different numbers of rows and columns; a value that is
  too large makes the call raise \<^verbatim>\<open>OverflowError\<close>.
\<close>

theorem gram_symmetric_square:
  "((\<forall>x y. k x y = k y x) \<and> (\<forall>x \<in> set A. \<forall>y \<in> set A. \<not> overflows (k x y)) \<longrightarrow>
      (\<exists>G. gram k A A = Inr G \<and> shape G = (length A, length A) \<and>
         (\<forall>i<length A. \<forall>j<length A. getitem G (i, j) = getitem G (j, i)))) \<and>
   (length A \<noteq> length B \<and> (\<forall>x \<in> set A. \<forall>y \<in> set B. \<not> overflows (k' x y)) \<longrightarrow>
      (\<exists>G. gram k' A B = Inr G \<and> shape G = (length A, length B) \<and> nrows G \<noteq> ncols G)) \<and>
   ((\<exists>x \<in> set A. \<exists>y \<in> set B. overflows (k' x y)) \<longrightarrow> gram k' A B = Inl OverflowError)"
proof -
  let ?G = "\<lparr>ncols = length A, rows = map (\<lambda>x. map (\<lambda>y. float64_of (k x y)) A) A\<rparr>"
  have "getitem ?G (i, j) = getitem ?G (j, i)"
    if "\<forall>x y. k x y = k y x" "i < length A" "j < length A" for i j
  proof -
    have "k (A ! i) (A ! j) = k (A ! j) (A ! i)" using that(1) by blast
    then show ?thesis using that(2,3) by (simp add: getitem_def nrows_def)
  qed
  then show ?thesis
    by (simp add: gram_closed list_ex_iff shape_def nrows_def)
qed

theorem gram_symmetric_square_witness:
  "(\<exists>G. gram int_product_kernel [1, 2] [1, 2] = Inr G \<and> shape G = (2, 2) \<and>
      getitem G (0, 1) = getitem G (1, 0)) \<and>
   (\<exists>G. gram int_sum_kernel [1, 2] [3] = Inr G \<and> shape G = (2, 1) \<and> nrows G \<noteq> ncols G)"
proof -
  have s: "\<forall>x y. int_product_kernel x y = int_product_kernel y x"
    by (simp add: int_product_kernel_def mult.commute)
  have a: "\<forall>x \<in> set [1, 2 :: int]. \<forall>y \<in> set [1, 2 :: int]. \<not> overflows (int_product_kernel x y)"
    by (simp add: int_product_kernel_def)
  have b: "\<forall>x \<in> set [1, 2 :: int]. \<forall>y \<in> set [3 :: int]. \<not> overflows (int_sum_kernel x y)"
    by (simp add: int_sum_kernel_def)
  have l: "length [1, 2 :: int] \<noteq> length [3 :: int]" by simp
  show ?thesis
    using gram_symmetric_square[of int_product_kernel "[1, 2]" "[3]" int_sum_kernel] s a b l
    by force
qed

text \<open>
  Claim C2 as the specification states it fails where the call returns no array at all:
  the product kernel is symmetric, and on a sequence that holds \<open>10 ^ 200\<close> its value
  \<open>10 ^ 400\<close> cannot be stored.
\<close>

theorem gram_symmetric_square_counterexample:
  "(\<forall>x y. int_product_kernel x y = int_product_kernel y x) \<and>
   gram int_product_kernel [1, 10 ^ 200] [1, 10 ^ 200] = Inl OverflowError"
  by (simp add: gram_closed int_product_kernel_def mult.commute)

text \<open>
  Claim C3, as amended. The construction is generic in the kernel: whatever function
  \<open>k\<close> into the Python numbers is in force, the call returns the table of the values
  \<open>k (A[i]) (B[j])\<close> converted to doubles, row \<open>i\<close> holding the kernels of \<open>A[i]\<close> with the
  items of \<open>B\<close> in order, or raises \<^verbatim>\<open>OverflowError\<close> when one of the values is too large
  for a double.
\<close>

theorem gram_generic_kernel:
  "gram k A B =
     (if \<exists>x1 \<in> set A. \<exists>x2 \<in> set B. overflows (k x1 x2) then Inl OverflowError
      else Inr \<lparr>ncols = length B,
                rows = map (\<lambda>x1. map (\<lambda>x2. float64_of (k x1 x2)) B) A\<rparr>)"
  by (simp add: gram_closed list_ex_iff)

theorem gram_generic_kernel_witness:
  "gram float_product_kernel [[1], [2, 1]] [[4]] = Inr \<lparr>ncols = 1, rows = [[4], [12]]\<rparr>"
proof -
  have "\<not> (\<exists>x1 \<in> set [[1], [2, 1]]. \<exists>x2 \<in> set [[4]]. overflows (float_product_kernel x1 x2))"
    by (simp add: float_product_kernel_def)
  then show ?thesis
    using gram_generic_kernel[of float_product_kernel "[[1], [2, 1]]" "[[4]]"]
    by (simp add: float_product_kernel_def)
qed

text \<open>
  Claim C3 as the specification states it, the table of the \<open>k\<close>-values themselves, fails
  for the product kernel on \<open>3\<close> and \<open>3002399751580331\<close>, whose product is \<open>2 ^ 53 + 1\<close>.
\<close>

theorem gram_generic_kernel_counterexample:
  "gram int_product_kernel [3] [3002399751580331]
     = Inr \<lparr>ncols = 1, rows = [[9007199254740992]]\<rparr> \<and>
   \<lparr>ncols = 1, rows = [[9007199254740992]]\<rparr>
     \<noteq> \<lparr>ncols = 1, rows = [[py_value (int_product_kernel 3 3002399751580331)]]\<rparr>"
  by (simp add: gram_closed int_product_kernel_def nearest_double_above)

text \<open>
  Claim C4, as amended. \<^verbatim>\<open>gram\<close> fails in exactly two ways: with \<^verbatim>\<open>OverflowError\<close>
  when some kernel value is an int too large for a double, and, on the store, with
  \<^verbatim>\<open>TypeError\<close> when an argument is not a sequence. Otherwise it returns a well-formed
  array of shape \<open>(|A|, |B|)\<close>; so it does whenever either sequence is empty (the array
  then has no rows, or rows without cells), and always with the placeholder kernel.
\<close>

theorem gram_no_error_states:
  "(gram k A B = Inl e \<longleftrightarrow>
      e = OverflowError \<and> (\<exists>x \<in> set A. \<exists>y \<in> set B. overflows (k x y))) \<and>
   ((\<forall>x \<in> set A. \<forall>y \<in> set B. \<not> overflows (k x y)) \<longrightarrow>
      (\<exists>G. gram k A B = Inr G \<and> shape G = (length A, length B) \<and> wf_matrix G)) \<and>
   gram k [] B = Inr (np_zeros (0, length B)) \<and>
   gram k A [] = Inr (np_zeros (length A, 0)) \<and>
   (\<exists>G. gram kernel A B = Inr G \<and> shape G = (length A, length B) \<and> wf_matrix G) \<and>
   (gram_store k' h pA pB = Inl e' \<longleftrightarrow>
      e' = TypeError \<and> (py_items h pA = Inl TypeError \<or> py_items h pB = Inl TypeError) \<or>
      e' = OverflowError \<and>
        (\<exists>A' B'. py_items h pA = Inr A' \<and> py_items h pB = Inr B' \<and>
           (\<exists>x \<in> set A'. \<exists>y \<in> set B'. overflows (k' x y))))"
proof -
  have g: "gram k A B = Inl e \<longleftrightarrow>
      e = OverflowError \<and> (\<exists>x \<in> set A. \<exists>y \<in> set B. overflows (k x y))" for k :: "'x \<Rightarrow> 'y \<Rightarrow> pynum"
    and A B e
    by (auto simp: gram_closed list_ex_iff)
  have r: "(\<forall>x \<in> set A. \<forall>y \<in> set B. \<not> overflows (k x y)) \<longrightarrow>
      (\<exists>G. gram k A B = Inr G \<and> shape G = (length A, length B) \<and> wf_matrix G)"
    for k :: "'x \<Rightarrow> 'y \<Rightarrow> pynum" and A B
    by (simp add: gram_closed list_ex_iff shape_def nrows_def wf_matrix_def list_all_iff)
  have "gram k [] B = Inr (np_zeros (0, length B))"
    by (simp add: gram_closed np_zeros_def)
  moreover have "gram k A [] = Inr (np_zeros (length A, 0))"
    by (simp add: gram_closed np_zeros_def map_replicate_const list_ex_iff)
  moreover have "\<exists>G. gram kernel A B = Inr G \<and> shape G = (length A, length B) \<and> wf_matrix G"
    using r[of A B kernel] by (simp add: kernel_converts)
  moreover have "gram_store k' h pA pB = Inl e' \<longleftrightarrow>
      e' = TypeError \<and> (py_items h pA = Inl TypeError \<or> py_items h pB = Inl TypeError) \<or>
      e' = OverflowError \<and>
        (\<exists>A' B'. py_items h pA = Inr A' \<and> py_items h pB = Inr B' \<and>
           (\<exists>x \<in> set A'. \<exists>y \<in> set B'. overflows (k' x y)))"
    unfolding gram_store_error g by blast
  ultimately show ?thesis
    using g[of k A B e] r[of A B k] by blast
qed

theorem gram_no_error_states_witness:
  "gram_store kernel [Other, Seq [[1, 2]]] 0 1 = Inl TypeError \<and>
   (\<exists>G. gram int_sum_kernel [1, 2] [3] = Inr G \<and> shape G = (2, 1)) \<and>
   (\<exists>G. gram kernel ([] :: vec list) ([] :: vec list) = Inr G \<and> shape G = (0, 0))"
proof -
  have p: "py_items [Other, Seq [[1, 2]]] 0 = Inl TypeError"
    by (simp add: py_items_def)
  have b: "\<forall>x \<in> set [1, 2 :: int]. \<forall>y \<in> set [3 :: int]. \<not> overflows (int_sum_kernel x y)"
    by (simp add: int_sum_kernel_def)
  have "gram_store kernel [Other, Seq [[1, 2]]] 0 1 = Inl TypeError"
    using p gram_no_error_states[of int_sum_kernel "[1, 2]" "[3]" OverflowError kernel
        "[Other, Seq [[1, 2]]]" 0 1 TypeError]
    by blast
  moreover have "\<exists>G. gram int_sum_kernel [1, 2] [3] = Inr G \<and> shape G = (2, 1)"
    using b gram_no_error_states[of int_sum_kernel "[1, 2]" "[3]" OverflowError kernel
        "[Other, Seq [[1, 2]]]" 0 1 TypeError]
    by force
  moreover have "\<exists>G. gram kernel ([] :: vec list) ([] :: vec list) = Inr G \<and> shape G = (0, 0)"
    using gram_no_error_states[of kernel "[] :: vec list" "[] :: vec list" OverflowError kernel
        "[Other, Seq [[1, 2]]]" 0 1 TypeError]
    by force
  ultimately show ?thesis by blast
qed

text \<open>
  Claim C4 as the specification states it, no error state on sequences of numbers, fails
  for the product kernel on \<open>10 ^ 200\<close> and \<open>10 ^ 200\<close>.
\<close>

theorem gram_no_error_states_counterexample:
  "gram int_product_kernel [10 ^ 200] [10 ^ 200] = Inl OverflowError"
  by (simp add: gram_closed int_product_kernel_def)

text \<open>
  Claim C5, as amended. A call of \<^verbatim>\<open>gram(A, B)\<close> terminates. When it returns, the kernel
  has been evaluated exactly \<open>|A| * |B|\<close> times, once for every index pair \<open>(i, j)\<close> with
  \<open>i < |A|\<close> and \<open>j < |B|\<close>, on the arguments \<open>A[i]\<close> and \<open>B[j]\<close>: the state of the
  environment is the one these evaluations leave, a kernel that counts its evaluations has
  counted \<open>|A| * |B|\<close>, and a kernel that records its arguments has recorded \<open>A[i]\<close> and
  \<open>B[j]\<close> as evaluation number \<open>i * |B| + j\<close>. When it raises, the kernel has been evaluated
  at least once and at most \<open>|A| * |B|\<close> times. It returns whenever no kernel value is too
  large for a double.
\<close>

theorem gram_kernel_evaluations:
  "((\<exists>err. gram_run k A B s = Inl err) \<or> (\<exists>st. gram_run k A B s = Inr st)) \<and>
   (\<forall>G s'. gram_run k A B s = Inr (G, s') \<longrightarrow> s' = kernel_steps k (List.product A B) s) \<and>
   (\<forall>G n'. gram_run (counting f) A B n = Inr (G, n') \<longrightarrow> n' = n + length A * length B) \<and>
   (\<forall>G tr. gram_run (tracing f) A B [] = Inr (G, tr) \<longrightarrow>
      length tr = length A * length B \<and>
      (\<forall>i<length A. \<forall>j<length B. tr ! (i * length B + j) = (A ! i, B ! j))) \<and>
   (\<forall>e n'. gram_run (counting f) A B n = Inl (e, n') \<longrightarrow>
      e = OverflowError \<and> n < n' \<and> n' \<le> n + length A * length B) \<and>
   ((\<forall>x \<in> set A. \<forall>y \<in> set B. \<not> overflows (f x y)) \<longrightarrow>
      (\<exists>G. gram_run (counting f) A B n = Inr (G, n + length A * length B)))"
proof -
  have "(\<exists>err. gram_run k A B s = Inl err) \<or> (\<exists>st. gram_run k A B s = Inr st)"
    by (cases "gram_run k A B s") auto
  moreover have "\<forall>G s'. gram_run k A B s = Inr (G, s') \<longrightarrow>
      s' = kernel_steps k (List.product A B) s"
    by (auto dest: gram_run_state)
  moreover have "\<forall>G n'. gram_run (counting f) A B n = Inr (G, n') \<longrightarrow>
      n' = n + length A * length B"
    by (auto dest!: gram_run_state simp: kernel_steps_counting)
  moreover have "\<forall>G tr. gram_run (tracing f) A B [] = Inr (G, tr) \<longrightarrow>
      length tr = length A * length B \<and>
      (\<forall>i<length A. \<forall>j<length B. tr ! (i * length B + j) = (A ! i, B ! j))"
    by (auto dest!: gram_run_state simp: kernel_steps_tracing product_index)
  moreover have "\<forall>e n'. gram_run (counting f) A B n = Inl (e, n') \<longrightarrow>
      e = OverflowError \<and> n < n' \<and> n' \<le> n + length A * length B"
    by (auto dest!: gram_run_raise simp: kernel_steps_counting)
  moreover have "(\<forall>x \<in> set A. \<forall>y \<in> set B. \<not> overflows (f x y)) \<longrightarrow>
      (\<exists>G. gram_run (counting f) A B n = Inr (G, n + length A * length B))"
  proof
    assume a: "\<forall>x \<in> set A. \<forall>y \<in> set B. \<not> overflows (f x y)"
    have "\<forall>x y s. fst (counting f x y s) = f x y" by (simp add: counting_def)
    from gram_run_observer[OF this a, of n]
    show "\<exists>G. gram_run (counting f) A B n = Inr (G, n + length A * length B)"
      by (simp add: kernel_steps_counting)
  qed
  ultimately show ?thesis by blast
qed

theorem gram_kernel_evaluations_witness:
  "\<exists>G. gram_run (counting int_sum_kernel) [1, 2] [3, 4, 5] 0 = Inr (G, 6)"
proof -
  have a: "\<forall>x \<in> set [1, 2 :: int]. \<forall>y \<in> set [3, 4, 5 :: int]. \<not> overflows (int_sum_kernel x y)"
    by (simp add: int_sum_kernel_def)
  show ?thesis
    using a gram_kernel_evaluations[of "counting int_sum_kernel" "[1, 2]" "[3, 4, 5]" 0
        int_sum_kernel 0]
    by force
qed

text \<open>
  Claim C5 as the specification states it, exactly \<open>|A| * |B|\<close> evaluations in every call,
  fails for a call that raises: with the product kernel, \<open>A = [10 ^ 200, 1]\<close> and
  \<open>B = [10 ^ 200]\<close> the first value cannot be stored, and the kernel has been evaluated
  once, not twice.
\<close>

theorem gram_kernel_evaluations_counterexample:
  "gram_run (counting int_product_kernel) [10 ^ 200, 1] [10 ^ 200] 0 = Inl (OverflowError, 1) \<and>
   (1 :: nat) \<noteq> length [10 ^ 200, 1 :: int] * length [10 ^ 200 :: int]"
  by (simp add: gram_run_eval counting_def int_product_kernel_def)

text \<open>
  Claim C6. The kernel is evaluated in row-major order, as a kernel that records its
  arguments observes: when the call returns, the evaluation for \<open>(i, j)\<close> is number
  \<open>i * |B| + j\<close> of the record, so it comes before the one for \<open>(i', j')\<close> whenever
  \<open>i < i'\<close>, or \<open>i = i'\<close> and \<open>j < j'\<close>; when the call raises, the record is an initial part
  of the same enumeration, and the same holds of the evaluations that were made.
\<close>

theorem gram_row_major:
  assumes "i < length A" "j < length B" "i' < length A" "j' < length B"
    and "i < i' \<or> (i = i' \<and> j < j')"
  shows "(\<forall>G tr. gram_run (tracing f) A B [] = Inr (G, tr) \<longrightarrow>
            (\<exists>p q. p < q \<and> q < length tr \<and> p = i * length B + j \<and> q = i' * length B + j' \<and>
               tr ! p = (A ! i, B ! j) \<and> tr ! q = (A ! i', B ! j'))) \<and>
         (\<forall>e tr. gram_run (tracing f) A B [] = Inl (e, tr) \<longrightarrow>
            tr = take (length tr) (List.product A B) \<and>
            (i' * length B + j' < length tr \<longrightarrow>
               i * length B + j < i' * length B + j' \<and>
               tr ! (i * length B + j) = (A ! i, B ! j) \<and>
               tr ! (i' * length B + j') = (A ! i', B ! j')))"
proof -
  have lt: "i * length B + j < i' * length B + j'"
    using assms(2,4,5) by (rule row_major_less)
  have returns: "\<exists>p q. p < q \<and> q < length tr \<and> p = i * length B + j \<and> q = i' * length B + j' \<and>
      tr ! p = (A ! i, B ! j) \<and> tr ! q = (A ! i', B ! j')"
    if "gram_run (tracing f) A B [] = Inr (G, tr)" for G tr
  proof -
    have "tr = List.product A B"
      using that by (auto dest!: gram_run_state simp: kernel_steps_tracing)
    then show ?thesis
      using lt product_index[OF assms(1,2)] product_index[OF assms(3,4)] by simp
  qed
  have raises: "tr = take (length tr) (List.product A B) \<and>
      (i' * length B + j' < length tr \<longrightarrow>
         i * length B + j < i' * length B + j' \<and>
         tr ! (i * length B + j) = (A ! i, B ! j) \<and>
         tr ! (i' * length B + j') = (A ! i', B ! j'))"
    if "gram_run (tracing f) A B [] = Inl (e, tr)" for e tr
  proof -
    from gram_run_raise[OF that]
    obtain m where m: "m < length A * length B" "tr = take (Suc m) (List.product A B)"
      by (auto simp: kernel_steps_tracing)
    have len: "length tr = Suc m" using m by simp
    have "tr = take (length tr) (List.product A B)" using m len by simp
    moreover have "tr ! (i * length B + j) = (A ! i, B ! j) \<and>
        tr ! (i' * length B + j') = (A ! i', B ! j')"
      if "i' * length B + j' < length tr"
      using that lt m(2) len product_index[OF assms(1,2)] product_index[OF assms(3,4)]
      by simp
    ultimately show ?thesis using lt by blast
  qed
  show ?thesis using returns raises by blast
qed

theorem gram_row_major_witness:
  "\<exists>G tr. gram_run (tracing int_sum_kernel) [1, 2] [3, 4, 5] [] = Inr (G, tr) \<and>
     tr ! 2 = (1, 5) \<and> tr ! 3 = (2, 3)"
proof -
  have a: "\<forall>x \<in> set [1, 2 :: int]. \<forall>y \<in> set [3, 4, 5 :: int]. \<not> overflows (int_sum_kernel x y)"
    by (simp add: int_sum_kernel_def)
  have "\<forall>x y s. fst (tracing int_sum_kernel x y s) = int_sum_kernel x y"
    by (simp add: tracing_def)
  from gram_run_observer[OF this a, of "[]"]
  obtain G tr where run: "gram_run (tracing int_sum_kernel) [1, 2] [3, 4, 5] [] = Inr (G, tr)"
    by blast
  have b: "0 < length [1, 2 :: int]" "2 < length [3, 4, 5 :: int]"
    "1 < length [1, 2 :: int]" "0 < length [3, 4, 5 :: int]" "(0 :: nat) < 1 \<or> (0 :: nat) = 1 \<and> (2 :: nat) < 0"
    by simp_all
  from gram_row_major[OF b, of int_sum_kernel] run
  have "tr ! 2 = (1, 5) \<and> tr ! 3 = (2, 3)"
    by (auto simp: numeral_2_eq_2 numeral_3_eq_3)
  then show ?thesis using run by blast
qed

text \<open>
  Claim C7. \<^verbatim>\<open>gram\<close> is deterministic and stateless: two calls whose arguments hold the
  same items have the same outcome, whatever else the two stores contain and wherever the
  arguments live in them. Both return the array that the value-level function computes, or
  both raise the error it raises; both return when no kernel value is too large for a
  double.
\<close>

theorem gram_store_deterministic:
  assumes "py_items h pA = Inr A" "py_items h pB = Inr B"
    and "py_items h' pA' = Inr A" "py_items h' pB' = Inr B"
  shows "(\<forall>G. gram k A B = Inr G \<longrightarrow>
            gram_store k h pA pB = Inr (length h, h @ [Arr G]) \<and>
            gram_store k h' pA' pB' = Inr (length h', h' @ [Arr G])) \<and>
         (\<forall>e. gram k A B = Inl e \<longrightarrow>
            gram_store k h pA pB = Inl e \<and> gram_store k h' pA' pB' = Inl e) \<and>
         ((\<forall>x \<in> set A. \<forall>y \<in> set B. \<not> overflows (k x y)) \<longrightarrow>
            (\<exists>G. gram k A B = Inr G \<and>
               gram_store k h pA pB = Inr (length h, h @ [Arr G]) \<and>
               gram_store k h' pA' pB' = Inr (length h', h' @ [Arr G])))"
  using gram_store_refines[OF assms(1,2), of k] gram_store_refines[OF assms(3,4), of k]
  by (auto simp: gram_closed list_ex_iff)

theorem gram_store_deterministic_witness:
  "\<exists>G. gram_store float_product_kernel [Seq [[1], [2]]] 0 0
          = Inr (1, [Seq [[1], [2]], Arr G]) \<and>
       gram_store float_product_kernel
          [Other, Arr \<lparr>ncols = 1, rows = [[1], [2]]\<rparr>, Seq [[1], [2]]] 1 2
          = Inr (3, [Other, Arr \<lparr>ncols = 1, rows = [[1], [2]]\<rparr>, Seq [[1], [2]], Arr G])"
proof -
  let ?h = "[Seq [[1], [2]]]"
  let ?h' = "[Other, Arr \<lparr>ncols = 1, rows = [[1], [2]]\<rparr>, Seq [[1], [2]]]"
  have a: "py_items ?h 0 = Inr [[1], [2]]" "py_items ?h' 1 = Inr [[1], [2]]"
    "py_items ?h' 2 = Inr [[1], [2]]"
    by (simp_all add: py_items_def)
  have c: "\<forall>x \<in> set [[1], [2]]. \<forall>y \<in> set [[1], [2]]. \<not> overflows (float_product_kernel x y)"
    by (simp add: float_product_kernel_def)
  show ?thesis
    using c gram_store_deterministic[OF a(1) a(1) a(2) a(3), of float_product_kernel]
    by auto
qed

text \<open>
  Claim C8. \<^verbatim>\<open>gram\<close> does not modify its arguments: the store after the call is the
  store before it with one new array appended, at the address returned; every object
  allocated before the call, and so the items of both arguments, is unchanged.
\<close>

theorem gram_store_frame:
  assumes "gram_store k h pA pB = Inr (r, h')"
  shows "r = length h \<and> (\<exists>G. h' = h @ [Arr G]) \<and>
         (\<forall>p<length h. h' ! p = h ! p) \<and>
         py_items h' pA = py_items h pA \<and> py_items h' pB = py_items h pB"
proof -
  have ne: "py_items h pA \<noteq> Inl TypeError" "py_items h pB \<noteq> Inl TypeError"
    using assms by (auto simp: gram_store_def split: sum.splits)
  then obtain A B where AB: "py_items h pA = Inr A" "py_items h pB = Inr B"
    using py_items_cases[of h pA] py_items_cases[of h pB] by auto
  have lt: "pA < length h" "pB < length h"
    using AB by (auto dest: py_items_in_store)
  obtain G where "r = length h" "h' = h @ [Arr G]"
    using assms gram_store_refines[OF AB, of k] by (auto split: sum.splits)
  then show ?thesis
    using lt by (simp add: nth_append py_items_append)
qed

theorem gram_store_frame_witness:
  "gram_store float_product_kernel [Seq [[1], [2]], Seq [[3]]] 0 1
     = Inr (2, [Seq [[1], [2]], Seq [[3]], Arr \<lparr>ncols = 1, rows = [[3], [6]]\<rparr>]) \<and>
   py_items [Seq [[1], [2]], Seq [[3]], Arr \<lparr>ncols = 1, rows = [[3], [6]]\<rparr>] 0
     = Inr [[1], [2]]"
proof -
  have run: "gram_store float_product_kernel [Seq [[1], [2]], Seq [[3]]] 0 1
     = Inr (2, [Seq [[1], [2]], Seq [[3]], Arr \<lparr>ncols = 1, rows = [[3], [6]]\<rparr>])"
    by (simp add: gram_store_def py_items_def alloc_def np_zeros_def store_setitem_def
        setitem_def nrows_def float_product_kernel_def to_float64_def)
  show ?thesis
    using run gram_store_frame[OF run] by (simp add: py_items_def)
qed

text \<open>
  Claim C9. The placeholder kernel returns \<open>0\<close>, so \<^verbatim>\<open>gram(A, B)\<close> as shipped is the
  all-zeros array of shape \<open>(|A|, |B|)\<close>; in particular the training and the test Gram
  matrices handed to the support-vector machine are all zeros.
\<close>

theorem gram_placeholder_zeros:
  "gram kernel A B = Inr (np_zeros (length A, length B)) \<and>
   gram_train X_train = Inr (np_zeros (length X_train, length X_train)) \<and>
   gram_test X_train X_test = Inr (np_zeros (length X_test, length X_train))"
  by (simp add: gram_train_def gram_test_def gram_closed list_ex_iff kernel_converts
      float64_of_kernel np_zeros_def map_replicate_const)

section \<open>The claim about the Ising model\<close>

text \<open>
  Claim C10. For data with \<open>n\<close> points, the dictionaries handed to the constructor of the
  Ising model hold the field \<open>0\<close> for each of the variables \<open>0, ..., n - 1\<close> and for no
  other, and a coupling for exactly the pairs \<open>(i, j)\<close> with \<open>i < j < n\<close>, equal to
  \<open>w[i, j]\<close>, the Euclidean distance between the points \<open>i\<close> and \<open>j\<close>; no pair with
  \<open>j \<le> i\<close> has an entry.
\<close>

theorem ising_model_fields_couplings:
  assumes "nrows data = n" "wf_matrix data"
  shows "\<exists>w J h. compute_w n data = Inr w \<and> ising_dicts n w = Inr (J, h) \<and>
           (\<forall>i<n. h i = Some (PyInt 0)) \<and> dom h = {0..<n} \<and>
           (\<forall>a<n. \<forall>b<n. getitem w (a, b) = Inr (distance data a b)) \<and>
           (\<forall>i j. i < j \<and> j < n \<longrightarrow>
              getitem w (i, j) = Inr (distance data i j) \<and>
              J (i, j) = Some (distance data i j)) \<and>
           (\<forall>i j. \<not> (i < j \<and> j < n) \<longrightarrow> J (i, j) = None)"
proof -
  obtain w where w: "compute_w n data = Inr w" "nrows w = n" "ncols w = n"
      "\<forall>a<n. \<forall>b<n. getitem w (a, b) = Inr (distance data a b)"
    using compute_w_run[OF assms(1)] by blast
  have cell: "rows w ! i ! j = distance data i j" if "i < j" "j < n" for i j
  proof -
    have "getitem w (i, j) = Inr (distance data i j)" using w(4) that by simp
    then show ?thesis using that w(2,3) by (simp add: getitem_def)
  qed
  let ?J = "\<lambda>p. if fst p < snd p \<and> snd p < n then Some (rows w ! fst p ! snd p) else None"
  let ?h = "\<lambda>i. if i < n then Some (PyInt 0) else None"
  have m: "ising_dicts n w = Inr (?J, ?h)"
    using w(2,3) by (rule ising_dicts_run)
  have "dom ?h = {0..<n}"
    by (auto simp: dom_def)
  moreover have "\<forall>i<n. ?h i = Some (PyInt 0)"
    by simp
  moreover have "\<forall>i j. i < j \<and> j < n \<longrightarrow>
      getitem w (i, j) = Inr (distance data i j) \<and> ?J (i, j) = Some (distance data i j)"
    using w(4) cell by simp
  moreover have "\<forall>i j. \<not> (i < j \<and> j < n) \<longrightarrow> ?J (i, j) = None"
    by simp
  ultimately show ?thesis using w(1,4) m by blast
qed

theorem ising_model_fields_couplings_witness:
  "\<exists>w J h. compute_w n_instances \<lparr>ncols = 3, rows = [[0, 0, 0], [1, 0, 0], [0, 1, 0], [0, 0, 1]]\<rparr>
            = Inr w \<and>
         ising_dicts n_instances w = Inr (J, h) \<and>
         h 3 = Some (PyInt 0) \<and>
         getitem w (0, 1) = Inr 1 \<and>
         J (0, 1) = Some 1 \<and>
         J (1, 0) = None"
proof -
  let ?D = "\<lparr>ncols = 3, rows = [[0, 0, 0], [1, 0, 0], [0, 1, 0], [0, 0, 1]]\<rparr>"
  have a: "nrows ?D = n_instances" "wf_matrix ?D"
    by (simp_all add: nrows_def n_instances_def wf_matrix_def)
  have d: "distance ?D 0 1 = 1"
    by (simp add: distance_def linalg_norm_def vsub_def)
  show ?thesis
    using ising_model_fields_couplings[OF a] d by (force simp: n_instances_def)
qed

end
